theory Spec2Isabelle
  imports Complex_Main
begin

section \<open>Strings as the parser uses them\<close>

text \<open>
  Python strings are modelled as \<open>string\<close>; a character stands for the code point of the
  same number (0 to 255). On these code points \<open>str.isspace\<close>, which is what both
  \<open>str.strip()\<close> and the regular-expression class \<open>\s\<close> test, holds for exactly the
  twelve characters of \<open>is_space\<close>, and \<open>\d\<close> for the ten ASCII digits.
\<close>

definition is_space :: "char \<Rightarrow> bool" where
  "is_space c = (of_char c \<in> {9, 10, 11, 12, 13, 28, 29, 30, 31, 32, 133, 160 :: nat})"

definition is_upper :: "char \<Rightarrow> bool" where
  "is_upper c = (65 \<le> (of_char c :: nat) \<and> (of_char c :: nat) \<le> 90)"

definition is_lower :: "char \<Rightarrow> bool" where
  "is_lower c = (97 \<le> (of_char c :: nat) \<and> (of_char c :: nat) \<le> 122)"

definition is_digit :: "char \<Rightarrow> bool" where
  "is_digit c = (48 \<le> (of_char c :: nat) \<and> (of_char c :: nat) \<le> 57)"

definition newline :: char where
  "newline = CHR 0x0A"

text \<open>\<open>s.strip()\<close>: leading and trailing whitespace removed.\<close>

definition strip :: "string \<Rightarrow> string" where
  "strip s = rev (dropWhile is_space (rev (dropWhile is_space s)))"

text \<open>\<open>text.split('\n')\<close>: the pieces between newlines; the empty text gives one empty piece.\<close>

fun split_nl :: "string \<Rightarrow> string list" where
  "split_nl [] = [[]]"
| "split_nl (c # cs) =
     (if c = newline then [] # split_nl cs
      else (case split_nl cs of [] \<Rightarrow> [[c]] | l # ls \<Rightarrow> (c # l) # ls))"

text \<open>\<open>sep.join(xs)\<close>.\<close>

fun join :: "string \<Rightarrow> string list \<Rightarrow> string" where
  "join sep [] = []"
| "join sep [x] = x"
| "join sep (x # y # ys) = x @ sep @ join sep (y # ys)"

text \<open>\<open>str(n)\<close> for an integer, as the f-strings of the descriptions format it.\<close>

fun digits_of_nat :: "nat \<Rightarrow> string" where
  "digits_of_nat n =
     (if n < 10 then [''0123456789'' ! n]
      else digits_of_nat (n div 10) @ [''0123456789'' ! (n mod 10)])"

declare digits_of_nat.simps [simp del]

definition str_of_int :: "int \<Rightarrow> string" where
  "str_of_int i = (if i < 0 then CHR ''-'' # digits_of_nat (nat (- i)) else digits_of_nat (nat i))"

section \<open>Regular expressions and \<open>re.match\<close>\<close>

text \<open>
  The patterns of the parser use character classes, concatenation, \<open>?\<close>, \<open>*\<close>, \<open>+\<close> and a
  final \<open>$\<close>. \<open>re.match\<close> looks for a match that starts at the beginning of the string
  (so the leading \<open>^\<close> adds nothing); without a final \<open>$\<close> the match may stop anywhere, with
  it the match must stop at the end of the string or just before a newline that ends it.
  Whether such a match exists does not depend on the order in which a backtracking matcher
  tries alternatives, so the matcher below decides it by derivatives.
\<close>

datatype regex =
    Zero
  | Eps
  | Sym "char \<Rightarrow> bool"
  | Alt regex regex
  | Seq regex regex
  | Star regex

definition Plus :: "regex \<Rightarrow> regex" where
  "Plus r = Seq r (Star r)"

definition Opt :: "regex \<Rightarrow> regex" where
  "Opt r = Alt r Eps"

primrec nullable :: "regex \<Rightarrow> bool" where
  "nullable Zero = False"
| "nullable Eps = True"
| "nullable (Sym p) = False"
| "nullable (Alt r s) = (nullable r \<or> nullable s)"
| "nullable (Seq r s) = (nullable r \<and> nullable s)"
| "nullable (Star r) = True"

primrec deriv :: "char \<Rightarrow> regex \<Rightarrow> regex" where
  "deriv c Zero = Zero"
| "deriv c Eps = Zero"
| "deriv c (Sym p) = (if p c then Eps else Zero)"
| "deriv c (Alt r s) = Alt (deriv c r) (deriv c s)"
| "deriv c (Seq r s) =
     (if nullable r then Alt (Seq (deriv c r) s) (deriv c s) else Seq (deriv c r) s)"
| "deriv c (Star r) = Seq (deriv c r) (Star r)"

text \<open>
  A pattern is a regular expression and a flag saying whether the pattern ends in \<open>$\<close>.
  \<open>re_match pat s\<close> is \<open>re.match(pat, s) is not None\<close>.
\<close>

type_synonym pattern = "regex \<times> bool"

fun matches_from :: "bool \<Rightarrow> regex \<Rightarrow> string \<Rightarrow> bool" where
  "matches_from dollar r [] = nullable r"
| "matches_from dollar r (c # cs) =
     ((nullable r \<and> (if dollar then c = newline \<and> cs = [] else True))
      \<or> matches_from dollar (deriv c r) cs)"

definition re_match :: "pattern \<Rightarrow> string \<Rightarrow> bool" where
  "re_match pat s = matches_from (snd pat) (fst pat) s"

section \<open>The parsing session\<close>

text \<open>
  Content blocks and pages are Python dictionaries. A block is kept as an association
  list in the order of its dictionary literal, so that the presence of a key can be
  observed; a page always has the two keys \<open>page_number\<close> and \<open>content\<close>.
\<close>

datatype pyval =
    PNone
  | PStr string
  | PInt int
  | PNum real
  | PRows "pyval list list"
  | PDict "(string \<times> pyval) list"

type_synonym block = "(string \<times> pyval) list"

record page =
  page_number :: int
  content :: "block list"

definition opt_str :: "string option \<Rightarrow> pyval" where
  "opt_str x = (case x of None \<Rightarrow> PNone | Some s \<Rightarrow> PStr s)"

record PDFParser =
  pdf_path :: string
  pages_data :: "page list"
  current_section :: "string option"
  current_sub_section :: "string option"

datatype error = FileNotFoundError string | IndexError | KeyError string | BackendFailure string

subsection \<open>\<open>__init__\<close>\<close>

text \<open>The file system is the set of paths that exist.\<close>

definition PDFParser_init :: "string set \<Rightarrow> string \<Rightarrow> error + PDFParser" where
  "PDFParser_init fs path =
     (if path \<notin> fs then Inl (FileNotFoundError (''PDF File not found '' @ path))
      else Inr \<lparr>pdf_path = path, pages_data = [], current_section = None,
                current_sub_section = None\<rparr>)"

subsection \<open>\<open>_is_heading\<close>\<close>

definition upper_or_space :: "char \<Rightarrow> bool" where
  "upper_or_space c = (is_upper c \<or> is_space c)"

definition not_dot :: "char \<Rightarrow> bool" where
  "not_dot c = (c \<noteq> CHR ''.'')"

definition is_char :: "char \<Rightarrow> char \<Rightarrow> bool" where
  "is_char d c = (c = d)"

text \<open>\<^verbatim>\<open>^[A-Z][A-Z\s]+$\<close>\<close>

definition pat_all_capitals :: pattern where
  "pat_all_capitals = (Seq (Sym is_upper) (Plus (Sym upper_or_space)), True)"

text \<open>\<^verbatim>\<open>^\d+\.?\s+[A-Z]\<close>\<close>

definition pat_section_number :: pattern where
  "pat_section_number =
     (Seq (Plus (Sym is_digit)) (Seq (Opt (Sym (is_char CHR ''.'')))
        (Seq (Plus (Sym is_space)) (Sym is_upper))), False)"

text \<open>\<^verbatim>\<open>^[A-Z][^.]*:$\<close>\<close>

definition pat_colon :: pattern where
  "pat_colon = (Seq (Sym is_upper) (Seq (Star (Sym not_dot)) (Sym (is_char CHR '':''))), True)"

text \<open>\<^verbatim>\<open>^\s*[A-Z][a-z]+\s+[A-Z]\<close>\<close>

definition pat_title_case :: pattern where
  "pat_title_case =
     (Seq (Star (Sym is_space)) (Seq (Sym is_upper) (Seq (Plus (Sym is_lower))
        (Seq (Plus (Sym is_space)) (Sym is_upper)))), False)"

definition heading_patterns :: "pattern list" where
  "heading_patterns = [pat_all_capitals, pat_section_number, pat_colon, pat_title_case]"

text \<open>The loop returns True at the first pattern that matches the stripped line.\<close>

fun any_match :: "pattern list \<Rightarrow> string \<Rightarrow> bool" where
  "any_match [] s = False"
| "any_match (p # ps) s = (if re_match p s then True else any_match ps s)"

definition is_heading :: "string \<Rightarrow> bool" where
  "is_heading line = any_match heading_patterns (strip line)"

subsection \<open>\<open>_update_sections\<close> and \<open>_detect_section\<close>\<close>

text \<open>\<^verbatim>\<open>^\d+\.?\s+\<close>\<close>

definition pat_numbered :: pattern where
  "pat_numbered =
     (Seq (Plus (Sym is_digit)) (Seq (Opt (Sym (is_char CHR ''.''))) (Plus (Sym is_space))), False)"

text \<open>
  \<open>elif self.current_section\<close> tests truthiness: None and the empty string both fail it.
\<close>

definition truthy :: "string option \<Rightarrow> bool" where
  "truthy x = (case x of None \<Rightarrow> False | Some s \<Rightarrow> s \<noteq> [])"

definition update_sections :: "string \<Rightarrow> 'a PDFParser_scheme \<Rightarrow> 'a PDFParser_scheme" where
  "update_sections line0 self =
     (let line = strip line0 in
      if re_match pat_numbered line
      then self\<lparr>current_section := Some line, current_sub_section := None\<rparr>
      else if truthy (current_section self)
      then self\<lparr>current_sub_section := Some line\<rparr>
      else self\<lparr>current_section := Some line\<rparr>)"

definition detect_section :: "'a PDFParser_scheme \<Rightarrow> string \<Rightarrow> string option \<times> string option" where
  "detect_section self text = (current_section self, current_sub_section self)"

subsection \<open>\<open>_extract_paragraphs\<close>\<close>

text \<open>
  The three places where the buffer is flushed. Each builds its dictionary literal as the
  source writes it: the flush at a heading has no \<open>sub_section\<close> key.
\<close>

definition flush_blank :: "'a PDFParser_scheme \<Rightarrow> string list \<Rightarrow> block list" where
  "flush_blank self current_paragraph =
     (let paragraph_text = join '' '' current_paragraph in
      if paragraph_text \<noteq> [] then
        (let (section, sub_section) = detect_section self paragraph_text in
         [[(''type'', PStr ''paragraph''), (''section'', opt_str section),
           (''sub_section'', opt_str sub_section), (''text'', PStr paragraph_text)]])
      else [])"

definition flush_heading :: "'a PDFParser_scheme \<Rightarrow> string list \<Rightarrow> block list" where
  "flush_heading self current_paragraph =
     (let paragraph_text = join '' '' current_paragraph in
      if paragraph_text \<noteq> [] then
        (let (section, sub_section) = detect_section self paragraph_text in
         [[(''type'', PStr ''paragraph''), (''section'', opt_str section),
           (''text'', PStr paragraph_text)]])
      else [])"

definition flush_end :: "'a PDFParser_scheme \<Rightarrow> string list \<Rightarrow> block list" where
  "flush_end self current_paragraph =
     (let paragraph_text = join '' '' current_paragraph in
      if paragraph_text \<noteq> [] then
        (let (section, sub_section) = detect_section self paragraph_text in
         [[(''type'', PStr ''paragraph''), (''section'', opt_str section),
           (''sub_section'', opt_str sub_section), (''text'', PStr paragraph_text)]])
      else [])"

text \<open>
  The loop over the lines carries the session, the paragraphs emitted so far and the
  buffer \<open>current_paragraph\<close>; after the last line the remaining buffer is flushed.
\<close>

fun paragraph_loop ::
  "string list \<Rightarrow> 'a PDFParser_scheme \<Rightarrow> block list \<Rightarrow> string list
     \<Rightarrow> block list \<times> 'a PDFParser_scheme" where
  "paragraph_loop [] self paragraphs current_paragraph =
     (if current_paragraph \<noteq> [] then (paragraphs @ flush_end self current_paragraph, self)
      else (paragraphs, self))"
| "paragraph_loop (line0 # lines) self paragraphs current_paragraph =
     (let line = strip line0 in
      if line = [] then
        (if current_paragraph \<noteq> []
         then paragraph_loop lines self (paragraphs @ flush_blank self current_paragraph) []
         else paragraph_loop lines self paragraphs current_paragraph)
      else if is_heading line then
        (if current_paragraph \<noteq> []
         then paragraph_loop lines (update_sections line self)
                (paragraphs @ flush_heading self current_paragraph) []
         else paragraph_loop lines (update_sections line self) paragraphs current_paragraph)
      else paragraph_loop lines self paragraphs (current_paragraph @ [line]))"

definition extract_paragraphs ::
  "'a PDFParser_scheme \<Rightarrow> string \<Rightarrow> int \<Rightarrow> block list \<times> 'a PDFParser_scheme" where
  "extract_paragraphs self text page_num = paragraph_loop (split_nl text) self [] []"

subsection \<open>\<open>_extract_tables_pdfplumber\<close>\<close>

text \<open>
  A raw table of the primary backend is a list of rows of cells, a cell being a string or
  None. \<open>cell.strip() if cell else ""\<close> sends None and the empty string to the empty
  string; \<open>any(cleaned_row)\<close> holds when some cleaned cell is not empty.
\<close>

type_synonym raw_table = "string option list list"

definition clean_cell :: "string option \<Rightarrow> string" where
  "clean_cell cell = (case cell of None \<Rightarrow> [] | Some s \<Rightarrow> (if s \<noteq> [] then strip s else []))"

definition any_cell :: "string list \<Rightarrow> bool" where
  "any_cell cleaned_row = list_ex (\<lambda>c. c \<noteq> []) cleaned_row"

fun clean_rows :: "raw_table \<Rightarrow> string list list \<Rightarrow> string list list" where
  "clean_rows [] cleaned_table = cleaned_table"
| "clean_rows (row # rows) cleaned_table =
     (let cleaned_row = map clean_cell row in
      if any_cell cleaned_row then clean_rows rows (cleaned_table @ [cleaned_row])
      else clean_rows rows cleaned_table)"

definition table_block ::
  "'a PDFParser_scheme \<Rightarrow> nat \<Rightarrow> int \<Rightarrow> string list list \<Rightarrow> block" where
  "table_block self i page_num cleaned_table =
     [(''type'', PStr ''table''),
      (''section'', opt_str (current_section self)),
      (''sub_section'', opt_str (current_sub_section self)),
      (''description'',
         PStr (''table '' @ str_of_int (int i + 1) @ '' from page '' @ str_of_int page_num)),
      (''table_data'', PRows (map (map PStr) cleaned_table))]"

fun tables_loop ::
  "'a PDFParser_scheme \<Rightarrow> int \<Rightarrow> nat \<Rightarrow> raw_table list \<Rightarrow> block list \<Rightarrow> block list" where
  "tables_loop self page_num i [] tables = tables"
| "tables_loop self page_num i (table # rest) tables =
     (if table \<noteq> [] \<and> length table > 0 then
        (let cleaned_table = clean_rows table [] in
         if cleaned_table \<noteq> []
         then tables_loop self page_num (Suc i) rest
                (tables @ [table_block self i page_num cleaned_table])
         else tables_loop self page_num (Suc i) rest tables)
      else tables_loop self page_num (Suc i) rest tables)"

definition extract_tables_pdfplumber ::
  "'a PDFParser_scheme \<Rightarrow> raw_table list \<Rightarrow> int \<Rightarrow> block list" where
  "extract_tables_pdfplumber self page_tables page_num = tables_loop self page_num 0 page_tables []"

subsection \<open>\<open>_detect_charts\<close>\<close>

text \<open>
  An image descriptor is a dictionary from keys to numbers. \<open>img.get(k, 0)\<close> reads a key
  with default 0, \<open>img.get(k)\<close> with default None.
\<close>

type_synonym image = "(string \<times> real) list"

definition img_get0 :: "image \<Rightarrow> string \<Rightarrow> real" where
  "img_get0 img k = (case map_of img k of None \<Rightarrow> 0 | Some v \<Rightarrow> v)"

definition img_get :: "image \<Rightarrow> string \<Rightarrow> pyval" where
  "img_get img k = (case map_of img k of None \<Rightarrow> PNone | Some v \<Rightarrow> PNum v)"

definition chart_block :: "'a PDFParser_scheme \<Rightarrow> nat \<Rightarrow> int \<Rightarrow> image \<Rightarrow> block" where
  "chart_block self i page_num img =
     [(''type'', PStr ''chart''),
      (''section'', opt_str (current_section self)),
      (''sub_section'', opt_str (current_sub_section self)),
      (''description'',
         PStr (''Chart/Image '' @ str_of_int (int i + 1) @ '' detected on page ''
               @ str_of_int page_num)),
      (''image_info'',
         PDict [(''width'', img_get img ''width''), (''height'', img_get img ''height''),
                (''x0'', img_get img ''x0''), (''y0'', img_get img ''y0'')])]"

fun charts_loop ::
  "'a PDFParser_scheme \<Rightarrow> int \<Rightarrow> nat \<Rightarrow> image list \<Rightarrow> block list \<Rightarrow> block list" where
  "charts_loop self page_num i [] charts = charts"
| "charts_loop self page_num i (img # rest) charts =
     (if img_get0 img ''width'' > 100 \<and> img_get0 img ''height'' > 100
      then charts_loop self page_num (Suc i) rest (charts @ [chart_block self i page_num img])
      else charts_loop self page_num (Suc i) rest charts)"

text \<open>
  \<open>images\<close> is None when the page object has no such attribute; an empty list is falsy.
\<close>

definition detect_charts ::
  "'a PDFParser_scheme \<Rightarrow> image list option \<Rightarrow> int \<Rightarrow> block list" where
  "detect_charts self images page_num =
     (case images of
        None \<Rightarrow> []
      | Some imgs \<Rightarrow> (if imgs \<noteq> [] then charts_loop self page_num 0 imgs [] else []))"

subsection \<open>\<open>_process_page\<close>\<close>

text \<open>What the primary backend reports for one page.\<close>

record raw_page =
  extract_text :: "string option"
  extract_tables :: "raw_table list"
  images :: "image list option"

definition process_page ::
  "'a PDFParser_scheme \<Rightarrow> raw_page \<Rightarrow> int \<Rightarrow> page \<times> 'a PDFParser_scheme" where
  "process_page self pg page_num =
     (let (paragraphs, self1) =
            (case extract_text pg of
               None \<Rightarrow> ([], self)
             | Some text \<Rightarrow> (if text \<noteq> [] then extract_paragraphs self text page_num
                            else ([], self)));
          tables = extract_tables_pdfplumber self1 (extract_tables pg) page_num;
          charts = detect_charts self1 (images pg) page_num
      in (\<lparr>page_number = page_num, content = paragraphs @ tables @ charts\<rparr>, self1))"

subsection \<open>\<open>_extract_tables_with_camelot\<close>\<close>

text \<open>
  A table of the fallback backend: its page and its data frame, given by the column labels
  and the rows of values. \<open>df.empty\<close> holds when an axis of the frame has length 0.
\<close>

record camelot_table =
  tbl_page :: int
  df_columns :: "pyval list"
  df_values :: "pyval list list"

definition df_empty :: "camelot_table \<Rightarrow> bool" where
  "df_empty t = (df_columns t = [] \<or> df_values t = [])"

text \<open>
  \<open>xs[i]\<close> on a Python list: a negative index counts from the end, an index out of range
  raises. The result is the position read.
\<close>

definition py_index :: "'b list \<Rightarrow> int \<Rightarrow> error + nat" where
  "py_index xs i =
     (if 0 \<le> i \<and> i < int (length xs) then Inr (nat i)
      else if i < 0 \<and> - int (length xs) \<le> i then Inr (nat (int (length xs) + i))
      else Inl IndexError)"

text \<open>
  The comprehension \<open>[content for content in ... if content["type"]=="table"]\<close>; a block
  without the key \<open>type\<close> raises.
\<close>

fun existing_tables :: "block list \<Rightarrow> error + block list" where
  "existing_tables [] = Inr []"
| "existing_tables (b # bs) =
     (case map_of b ''type'' of
        None \<Rightarrow> Inl (KeyError ''type'')
      | Some ty \<Rightarrow>
          (case existing_tables bs of
             Inl e \<Rightarrow> Inl e
           | Inr r \<Rightarrow> Inr (if ty = PStr ''table'' then b # r else r)))"

definition fallback_block :: "'a PDFParser_scheme \<Rightarrow> int \<Rightarrow> pyval list list \<Rightarrow> block" where
  "fallback_block self page_num table_data =
     [(''type'', PStr ''table''),
      (''section'', opt_str (current_section self)),
      (''sub_section'', opt_str (current_sub_section self)),
      (''description'', PStr (''extracted table from page '' @ str_of_int page_num)),
      (''table_data'', PRows table_data)]"

text \<open>
  The loop \<open>for i, table in enumerate(tables)\<close>: \<open>i\<close> counts the tables of the whole
  document.
\<close>

fun camelot_loop ::
  "nat \<Rightarrow> camelot_table list \<Rightarrow> 'a PDFParser_scheme \<Rightarrow> error + 'a PDFParser_scheme" where
  "camelot_loop i [] self = Inr self"
| "camelot_loop i (t # ts) self =
     (if \<not> df_empty t then
        (let table_data = [df_columns t] @ df_values t;
             page_num = tbl_page t
         in if page_num \<le> int (length (pages_data self)) then
              (case py_index (pages_data self) (page_num - 1) of
                 Inl e \<Rightarrow> Inl e
               | Inr j \<Rightarrow>
                   (case existing_tables (content (pages_data self ! j)) of
                      Inl e \<Rightarrow> Inl e
                    | Inr existing \<Rightarrow>
                        (if length existing \<le> i then
                           camelot_loop (Suc i) ts
                             (self\<lparr>pages_data := (pages_data self)
                                [j := (pages_data self ! j)
                                   \<lparr>content := content (pages_data self ! j)
                                      @ [fallback_block self page_num table_data]\<rparr>]\<rparr>)
                         else camelot_loop (Suc i) ts self)))
            else camelot_loop (Suc i) ts self)
      else camelot_loop (Suc i) ts self)"

text \<open>The fallback backend reads the file at the session's path, and may fail.\<close>

definition extract_tables_with_camelot ::
  "(string \<Rightarrow> error + camelot_table list) \<Rightarrow> 'a PDFParser_scheme \<Rightarrow> error + 'a PDFParser_scheme" where
  "extract_tables_with_camelot camelot_read_pdf self =
     (case camelot_read_pdf (pdf_path self) of
        Inl e \<Rightarrow> Inl e
      | Inr tables \<Rightarrow> camelot_loop 0 tables self)"

subsection \<open>\<open>parse_pdf\<close> and \<open>main\<close>\<close>

text \<open>The loop \<open>for page_num, page in enumerate(pdf.pages, 1)\<close>.\<close>

fun pages_loop :: "int \<Rightarrow> raw_page list \<Rightarrow> 'a PDFParser_scheme \<Rightarrow> 'a PDFParser_scheme" where
  "pages_loop page_num [] self = self"
| "pages_loop page_num (pg # pgs) self =
     (let (page_content, self1) = process_page self pg page_num
      in pages_loop (page_num + 1) pgs (self1\<lparr>pages_data := pages_data self1 @ [page_content]\<rparr>))"

text \<open>
  The two backends are functions of the path: the primary one opens the file and gives its
  pages, the fallback one gives the tables of the whole document; either may fail. The
  result is the value of the key \<open>pages\<close> of the returned dictionary, with the session.
\<close>

record backends =
  pdfplumber_open :: "string \<Rightarrow> error + raw_page list"
  camelot_read_pdf :: "string \<Rightarrow> error + camelot_table list"

definition parse_pdf :: "backends \<Rightarrow> PDFParser \<Rightarrow> error + page list \<times> PDFParser" where
  "parse_pdf be self =
     (case pdfplumber_open be (pdf_path self) of
        Inl e \<Rightarrow> Inl e
      | Inr pdf_pages \<Rightarrow>
          (case extract_tables_with_camelot (camelot_read_pdf be) (pages_loop 1 pdf_pages self) of
             Inl e \<Rightarrow> Inl e
           | Inr self2 \<Rightarrow> Inr (pages_data self2, self2)))"

text \<open>\<open>main\<close> up to the extracted data; writing the JSON file is left out.\<close>

definition main_extract :: "string set \<Rightarrow> backends \<Rightarrow> string \<Rightarrow> error + page list" where
  "main_extract fs be input_pdf =
     (case PDFParser_init fs input_pdf of
        Inl e \<Rightarrow> Inl e
      | Inr pdf_parser \<Rightarrow>
          (case parse_pdf be pdf_parser of
             Inl e \<Rightarrow> Inl e
           | Inr (extracted_data, p) \<Rightarrow> Inr extracted_data))"

section \<open>The language of a pattern\<close>

text \<open>
  The words a regular expression accepts, as an inductive predicate; the matcher is shown
  below to find exactly the prefixes it accepts.
\<close>

inductive accepts :: "regex \<Rightarrow> string \<Rightarrow> bool" where
  acc_Eps: "accepts Eps []"
| acc_Sym: "p c \<Longrightarrow> accepts (Sym p) [c]"
| acc_AltL: "accepts r w \<Longrightarrow> accepts (Alt r s) w"
| acc_AltR: "accepts s w \<Longrightarrow> accepts (Alt r s) w"
| acc_Seq: "accepts r u \<Longrightarrow> accepts s v \<Longrightarrow> accepts (Seq r s) (u @ v)"
| acc_StarNil: "accepts (Star r) []"
| acc_StarStep: "accepts r u \<Longrightarrow> accepts (Star r) v \<Longrightarrow> accepts (Star r) (u @ v)"

text \<open>What may follow a match: anything, or with a final \<open>$\<close> nothing but a last newline.\<close>

definition tail_ok :: "bool \<Rightarrow> string \<Rightarrow> bool" where
  "tail_ok dollar v = (if dollar then v = [] \<or> v = [newline] else True)"

section \<open>Predicates for stating properties\<close>

text \<open>A string made of uppercase letters and spaces only.\<close>

definition capitals_and_spaces :: "string \<Rightarrow> bool" where
  "capitals_and_spaces s = list_all (\<lambda>c. is_upper c \<or> c = CHR '' '') s"

text \<open>An image large enough to count as a chart: wider and higher than 100 units.\<close>

definition chart_sized :: "image \<Rightarrow> bool" where
  "chart_sized img = (100 < img_get0 img ''width'' \<and> 100 < img_get0 img ''height'')"

text \<open>The rows of a raw table after cleaning every cell and dropping the rows left empty.\<close>

definition normalize :: "raw_table \<Rightarrow> string list list" where
  "normalize table = filter any_cell (map (map clean_cell) table)"

text \<open>The rows under the key \<open>table_data\<close> of a block.\<close>

definition table_rows :: "block \<Rightarrow> pyval list list" where
  "table_rows b = (case map_of b ''table_data'' of Some (PRows rows) \<Rightarrow> rows | _ \<Rightarrow> [])"

text \<open>A row whose cells are all the empty string.\<close>

definition row_all_empty :: "pyval list \<Rightarrow> bool" where
  "row_all_empty row = list_all (\<lambda>c. c = PStr []) row"

text \<open>A block whose key \<open>section\<close> holds a string, not None.\<close>

definition stamped :: "block \<Rightarrow> bool" where
  "stamped b = (case map_of b ''section'' of Some (PStr s) \<Rightarrow> True | _ \<Rightarrow> False)"

text \<open>A block that has the key \<open>type\<close>.\<close>

definition typed :: "block \<Rightarrow> bool" where
  "typed b = (map_of b ''type'' \<noteq> None)"

text \<open>The paragraphs of a page and the session after them: the text step of \<open>_process_page\<close>.\<close>

definition paragraphs_of :: "'a PDFParser_scheme \<Rightarrow> raw_page \<Rightarrow> int \<Rightarrow> block list \<times> 'a PDFParser_scheme" where
  "paragraphs_of self pg n =
     (case extract_text pg of
        None \<Rightarrow> ([], self)
      | Some t \<Rightarrow> (if t \<noteq> [] then extract_paragraphs self t n else ([], self)))"

text \<open>
  \<open>extends P ps ps'\<close>: the same pages in the same order, each with its content followed by
  added blocks that satisfy \<open>P\<close>.
\<close>

definition extends :: "(block \<Rightarrow> bool) \<Rightarrow> page list \<Rightarrow> page list \<Rightarrow> bool" where
  "extends P ps ps' =
     (length ps' = length ps
      \<and> (\<forall>j < length ps. page_number (ps' ! j) = page_number (ps ! j)
            \<and> (\<exists>added. content (ps' ! j) = content (ps ! j) @ added \<and> list_all P added)))"

text \<open>Every block of every page has the key \<open>type\<close>.\<close>

definition all_typed :: "page list \<Rightarrow> bool" where
  "all_typed ps = (\<forall>p \<in> set ps. \<forall>b \<in> set (content p). typed b)"

text \<open>The number of table blocks among the blocks of a page.\<close>

definition count_tables :: "block list \<Rightarrow> nat" where
  "count_tables bs = length (filter (\<lambda>b. map_of b ''type'' = Some (PStr ''table'')) bs)"

text \<open>The number of fallback tables on a given page.\<close>

definition fallback_count :: "camelot_table list \<Rightarrow> int \<Rightarrow> nat" where
  "fallback_count ts n = length (filter (\<lambda>t. tbl_page t = n) ts)"

text \<open>
  A document of two pages with one table each, which both backends find, read by a fresh
  session.
\<close>

definition two_table_pages :: "raw_page list" where
  "two_table_pages =
     [\<lparr>extract_text = None, extract_tables = [[[Some ''a'']]], images = None\<rparr>,
      \<lparr>extract_text = None, extract_tables = [[[Some ''b'']]], images = None\<rparr>]"

definition two_table_fallback :: "camelot_table list" where
  "two_table_fallback =
     [\<lparr>tbl_page = 1, df_columns = [PInt 0], df_values = [[PStr ''a'']]\<rparr>,
      \<lparr>tbl_page = 2, df_columns = [PInt 0], df_values = [[PStr ''b'']]\<rparr>]"

definition two_table_backends :: backends where
  "two_table_backends =
     \<lparr>pdfplumber_open = (\<lambda>p. Inr two_table_pages),
      camelot_read_pdf = (\<lambda>p. Inr two_table_fallback)\<rparr>"

definition fresh_session :: PDFParser where
  "fresh_session = \<lparr>pdf_path = ''two.pdf'', pages_data = [], current_section = None,
                    current_sub_section = None\<rparr>"

section \<open>The matcher decides the language\<close>

inductive_simps accepts_Zero [simp]: "accepts Zero w"
inductive_simps accepts_Eps [simp]: "accepts Eps w"
inductive_simps accepts_Sym: "accepts (Sym p) w"
inductive_simps accepts_Alt: "accepts (Alt r s) w"
inductive_simps accepts_Seq: "accepts (Seq r s) w"

lemma accepts_Star_Cons:
  "accepts (Star r) (c # w) \<longleftrightarrow> (\<exists>u v. w = u @ v \<and> accepts r (c # u) \<and> accepts (Star r) v)"
proof
  assume "accepts (Star r) (c # w)"
  then show "\<exists>u v. w = u @ v \<and> accepts r (c # u) \<and> accepts (Star r) v"
  proof (induction "Star r" "c # w" arbitrary: w rule: accepts.induct)
    case (acc_StarStep u v)
    show ?case
    proof (cases u)
      case Nil
      with acc_StarStep show ?thesis by simp
    next
      case (Cons a u')
      with acc_StarStep.hyps(1,3) acc_StarStep.hyps(5) show ?thesis by auto
    qed
  qed
next
  assume "\<exists>u v. w = u @ v \<and> accepts r (c # u) \<and> accepts (Star r) v"
  then obtain u v where "w = u @ v" "accepts r (c # u)" "accepts (Star r) v" by blast
  then show "accepts (Star r) (c # w)"
    using acc_StarStep [of r "c # u" v] by simp
qed

lemma nullable_accepts: "nullable r \<longleftrightarrow> accepts r []"
  by (induction r) (auto simp: accepts_Sym accepts_Alt accepts_Seq intro: acc_StarNil)

lemma deriv_accepts: "accepts (deriv c r) w \<longleftrightarrow> accepts r (c # w)"
proof (induction r arbitrary: w)
  case (Seq r1 r2)
  show ?case
    by (auto simp: accepts_Seq accepts_Alt Seq nullable_accepts Cons_eq_append_conv)
next
  case (Star r)
  show ?case
    by (simp add: accepts_Seq accepts_Star_Cons Star)
qed (auto simp: accepts_Sym accepts_Alt)

lemma matches_from_accepts:
  "matches_from dollar r s \<longleftrightarrow> (\<exists>u v. s = u @ v \<and> accepts r u \<and> tail_ok dollar v)"
proof (induction s arbitrary: r)
  case Nil
  show ?case by (simp add: nullable_accepts tail_ok_def)
next
  case (Cons c cs)
  show ?case (is "?L = ?R")
  proof
    assume ?L
    then consider "nullable r" "tail_ok dollar (c # cs)" | "matches_from dollar (deriv c r) cs"
      by (auto simp: tail_ok_def split: if_splits)
    then show ?R
    proof cases
      case 1
      then show ?thesis
        by (intro exI [of _ "[]"] exI [of _ "c # cs"]) (simp add: nullable_accepts)
    next
      case 2
      then obtain u v where "cs = u @ v" "accepts r (c # u)" "tail_ok dollar v"
        using Cons deriv_accepts by blast
      then show ?thesis by (intro exI [of _ "c # u"] exI [of _ v]) simp
    qed
  next
    assume ?R
    then obtain u v where uv: "c # cs = u @ v" "accepts r u" "tail_ok dollar v" by blast
    show ?L
    proof (cases u)
      case Nil
      with uv show ?thesis by (auto simp: nullable_accepts tail_ok_def split: if_splits)
    next
      case (Cons a u')
      with uv have "cs = u' @ v" "accepts (deriv c r) u'" by (auto simp: deriv_accepts)
      with uv(3) Cons.IH have "matches_from dollar (deriv c r) cs" by blast
      then show ?thesis by simp
    qed
  qed
qed

lemma accepts_Star_Sym: "accepts (Star (Sym p)) w \<longleftrightarrow> list_all p w"
proof (induction w)
  case Nil
  show ?case by (simp add: acc_StarNil)
next
  case (Cons c w)
  show ?case by (auto simp: accepts_Star_Cons accepts_Sym Cons)
qed

lemma accepts_Sym_Seq:
  "accepts (Seq (Sym p) r) w \<longleftrightarrow> (\<exists>c w'. w = c # w' \<and> p c \<and> accepts r w')"
proof
  assume "accepts (Seq (Sym p) r) w"
  then show "\<exists>c w'. w = c # w' \<and> p c \<and> accepts r w'"
    by (auto simp: accepts_Seq accepts_Sym)
next
  assume "\<exists>c w'. w = c # w' \<and> p c \<and> accepts r w'"
  then obtain c w' where "w = [c] @ w'" "accepts (Sym p) [c]" "accepts r w'"
    by (auto intro: acc_Sym)
  then show "accepts (Seq (Sym p) r) w"
    using acc_Seq by blast
qed

lemma accepts_Plus_Sym: "accepts (Plus (Sym p)) w \<longleftrightarrow> w \<noteq> [] \<and> list_all p w"
  by (cases w) (auto simp: Plus_def accepts_Sym_Seq accepts_Star_Sym)

section \<open>Stripping\<close>

lemma strip_decomp:
  "dropWhile is_space s = strip s @ rev (takeWhile is_space (rev (dropWhile is_space s)))"
proof -
  let ?a = "dropWhile is_space s"
  have "rev (takeWhile is_space (rev ?a) @ dropWhile is_space (rev ?a)) = rev (rev ?a)"
    by (simp only: takeWhile_dropWhile_id)
  then show ?thesis
    by (simp only: rev_append rev_rev_ident strip_def)
qed

lemma strip_hd_not_space:
  assumes "strip s \<noteq> []"
  shows "\<not> is_space (hd (strip s))"
proof -
  from assms have ne: "dropWhile is_space s \<noteq> []"
    by (cases "dropWhile is_space s = []") (simp_all add: strip_def)
  then have "\<not> is_space (hd (dropWhile is_space s))"
    by (rule hd_dropWhile)
  moreover have "hd (dropWhile is_space s) = hd (strip s)"
    using assms strip_decomp [of s] by (metis hd_append2)
  ultimately show ?thesis by simp
qed

lemma strip_keeps_head:
  assumes "\<not> is_space c"
  shows "\<exists>t. strip (c # s) = c # t"
proof -
  have "dropWhile is_space (rev s @ [c]) = dropWhile is_space (rev s) @ [c]"
    using assms by (simp add: dropWhile_append)
  then show ?thesis using assms by (simp add: strip_def)
qed

section \<open>Headings and section updates\<close>

lemma digit_not_upper: "is_digit c \<Longrightarrow> \<not> is_upper c"
  by (simp add: is_digit_def is_upper_def)

lemma digit_not_space: "is_digit c \<Longrightarrow> \<not> is_space c"
  by (auto simp: is_digit_def is_space_def)

lemma upper_not_space: "is_upper c \<Longrightarrow> \<not> is_space c"
  by (auto simp: is_upper_def is_space_def)

lemma re_match_accepts:
  "re_match pat s \<longleftrightarrow> (\<exists>u v. s = u @ v \<and> accepts (fst pat) u \<and> tail_ok (snd pat) v)"
  by (simp add: re_match_def matches_from_accepts)

lemma is_heading_cases:
  "is_heading line \<longleftrightarrow>
     re_match pat_all_capitals (strip line) \<or> re_match pat_section_number (strip line)
     \<or> re_match pat_colon (strip line) \<or> re_match pat_title_case (strip line)"
  by (simp add: is_heading_def heading_patterns_def)

lemma all_capitals_starts_upper:
  "re_match pat_all_capitals (c # s) \<Longrightarrow> is_upper c"
  by (auto simp: re_match_accepts pat_all_capitals_def accepts_Sym_Seq Cons_eq_append_conv)

lemma colon_starts_upper:
  "re_match pat_colon (c # s) \<Longrightarrow> is_upper c"
  by (auto simp: re_match_accepts pat_colon_def accepts_Sym_Seq Cons_eq_append_conv)

lemma title_case_starts:
  assumes "re_match pat_title_case (c # s)"
  shows "is_upper c \<or> is_space c"
proof -
  from assms obtain u v where uv: "c # s = u @ v"
    and acc: "accepts (Seq (Star (Sym is_space)) (Seq (Sym is_upper) (Seq (Plus (Sym is_lower))
        (Seq (Plus (Sym is_space)) (Sym is_upper))))) u"
    by (auto simp: re_match_accepts pat_title_case_def)
  from acc obtain a b where ab: "u = a @ b" "list_all is_space a"
    "accepts (Seq (Sym is_upper) (Seq (Plus (Sym is_lower)) (Seq (Plus (Sym is_space)) (Sym is_upper)))) b"
    by (auto simp: accepts_Seq [of "Star (Sym is_space)"] accepts_Star_Sym)
  from ab(3) obtain x b' where b: "b = x # b'" "is_upper x"
    by (auto simp: accepts_Sym_Seq)
  show ?thesis
  proof (cases a)
    case Nil
    with uv ab b show ?thesis by simp
  next
    case (Cons y a')
    with uv ab show ?thesis by simp
  qed
qed

lemma section_number_numbered:
  assumes "re_match pat_section_number s"
  shows "re_match pat_numbered s"
proof -
  let ?A = "Plus (Sym is_digit)" and ?B = "Opt (Sym (is_char CHR ''.''))" and ?C = "Plus (Sym is_space)"
  from assms obtain u v where uv: "s = u @ v"
    and acc: "accepts (Seq ?A (Seq ?B (Seq ?C (Sym is_upper)))) u"
    by (auto simp: re_match_accepts pat_section_number_def)
  from acc obtain a w1 where 1: "u = a @ w1" "accepts ?A a" "accepts (Seq ?B (Seq ?C (Sym is_upper))) w1"
    by (auto simp: accepts_Seq [of ?A])
  from 1(3) obtain b w2 where 2: "w1 = b @ w2" "accepts ?B b" "accepts (Seq ?C (Sym is_upper)) w2"
    by (auto simp: accepts_Seq [of ?B])
  from 2(3) obtain c x where 3: "w2 = c @ x" "accepts ?C c" "accepts (Sym is_upper) x"
    by (auto simp: accepts_Seq [of ?C])
  have "accepts (Seq ?A (Seq ?B ?C)) (a @ b @ c)"
    using 1(2) 2(2) 3(2) by (intro acc_Seq)
  moreover have "s = (a @ b @ c) @ (x @ v)"
    using uv 1(1) 2(1) 3(1) by simp
  ultimately show ?thesis
    unfolding re_match_accepts pat_numbered_def
    by (intro exI [of _ "a @ b @ c"] exI [of _ "x @ v"]) (simp add: tail_ok_def)
qed

lemma digit_heading_numbered:
  assumes "is_heading line" "line = d # rest" "is_digit d"
  shows "re_match pat_numbered (strip line)"
proof -
  from assms(2,3) obtain t where t: "strip line = d # t"
    using strip_keeps_head [of d rest] digit_not_space by auto
  from assms(1) consider
      "re_match pat_all_capitals (d # t)" | "re_match pat_section_number (d # t)"
    | "re_match pat_colon (d # t)" | "re_match pat_title_case (d # t)"
    unfolding is_heading_cases t by blast
  then show ?thesis
  proof cases
    case 1
    then show ?thesis using all_capitals_starts_upper digit_not_upper assms(3) by blast
  next
    case 2
    then show ?thesis using section_number_numbered t by simp
  next
    case 3
    then show ?thesis using colon_starts_upper digit_not_upper assms(3) by blast
  next
    case 4
    then show ?thesis using title_case_starts digit_not_upper digit_not_space assms(3) by blast
  qed
qed

text \<open>
  C4, amended. Whatever the cursor holds, updating with a heading line that begins with
  digits and a period sets \<open>current_section\<close> to that line with surrounding whitespace
  stripped, which is the line itself when it has none, and clears \<open>current_sub_section\<close>.
\<close>

theorem update_sections_numbered_heading:
  assumes "is_heading line" and "ds \<noteq> []" and "list_all is_digit ds"
    and "line = ds @ CHR ''.'' # rest"
  shows "current_section (update_sections line self) = Some (strip line)
       \<and> current_sub_section (update_sections line self) = None
       \<and> (strip line = line \<longrightarrow> current_section (update_sections line self) = Some line)"
proof -
  from assms(2,3,4) obtain d ds' where "line = d # ds' @ CHR ''.'' # rest" "is_digit d"
    by (cases ds) auto
  with assms(1) have "re_match pat_numbered (strip line)"
    using digit_heading_numbered by blast
  then have "current_section (update_sections line self) = Some (strip line)
      \<and> current_sub_section (update_sections line self) = None"
    by (simp add: update_sections_def)
  then show ?thesis by auto
qed

theorem update_sections_numbered_heading_witness:
  "is_heading ''1. Introduction'' \<and>
   current_section (update_sections ''1. Introduction''
      \<lparr>pdf_path = ''a.pdf'', pages_data = [], current_section = Some ''Preface'',
       current_sub_section = Some ''Thanks''\<rparr>) = Some ''1. Introduction'' \<and>
   current_sub_section (update_sections ''1. Introduction''
      \<lparr>pdf_path = ''a.pdf'', pages_data = [], current_section = Some ''Preface'',
       current_sub_section = Some ''Thanks''\<rparr>) = None"
proof -
  have h: "is_heading ''1. Introduction''" by code_simp
  have d: "list_all is_digit ''1''" by code_simp
  have s: "strip ''1. Introduction'' = ''1. Introduction''" by code_simp
  show ?thesis
    using update_sections_numbered_heading [OF h _ d, where rest = "'' Introduction''"
        and self = "\<lparr>pdf_path = ''a.pdf'', pages_data = [], current_section = Some ''Preface'',
          current_sub_section = Some ''Thanks''\<rparr>"] h s
    by simp
qed

text \<open>
  The line \<open>1. A\<close> followed by a space is a heading that begins with a digit and a period;
  the update sets the section to \<open>1. A\<close> without the space, not to the line as given.
\<close>

theorem update_sections_strips_heading:
  "is_heading ''1. A ''
   \<and> current_section (update_sections ''1. A ''
        \<lparr>pdf_path = ''a.pdf'', pages_data = [], current_section = None,
         current_sub_section = None\<rparr>) = Some ''1. A''
   \<and> current_section (update_sections ''1. A ''
        \<lparr>pdf_path = ''a.pdf'', pages_data = [], current_section = None,
         current_sub_section = None\<rparr>) \<noteq> Some ''1. A ''"
  by code_simp

text \<open>
  C3, amended. A line that after stripping has at least two characters, all of them
  uppercase letters or spaces, is a heading.
\<close>

theorem is_heading_all_capitals:
  assumes "2 \<le> length (strip line)"
    and "capitals_and_spaces (strip line)"
  shows "is_heading line"
proof -
  from assms(1) obtain c t where t: "strip line = c # t" "t \<noteq> []"
    by (cases "strip line") (auto simp: Suc_le_length_iff)
  have "\<not> is_space c"
    using strip_hd_not_space [of line] t by simp
  moreover have sp: "is_space CHR '' ''" by (simp add: is_space_def)
  ultimately have "is_upper c" using assms(2) t by (auto simp: capitals_and_spaces_def)
  moreover have "list_all upper_or_space t"
    using assms(2) t sp by (auto simp: capitals_and_spaces_def list_all_iff upper_or_space_def)
  ultimately have "accepts (fst pat_all_capitals) (c # t)"
    using t(2) by (simp add: pat_all_capitals_def accepts_Sym_Seq accepts_Plus_Sym)
  then have "re_match pat_all_capitals (strip line)"
    unfolding re_match_accepts t
    by (intro exI [of _ "c # t"] exI [of _ "[]"]) (simp add: tail_ok_def pat_all_capitals_def)
  then show ?thesis by (simp add: is_heading_cases)
qed

theorem is_heading_all_capitals_witness:
  "2 \<le> length (strip ''  TABLE OF CONTENTS '') \<and> is_heading ''  TABLE OF CONTENTS ''"
proof -
  have 1: "2 \<le> length (strip ''  TABLE OF CONTENTS '')" by code_simp
  have 2: "capitals_and_spaces (strip ''  TABLE OF CONTENTS '')" by code_simp
  show ?thesis using is_heading_all_capitals [OF 1 2] 1 by simp
qed

text \<open>
  The single capital letter \<open>A\<close> is made of uppercase letters only and has one character,
  and it is not a heading: the pattern for capitals asks for a second character.
\<close>

theorem single_capital_not_heading:
  "1 \<le> length (strip ''A'') \<and> capitals_and_spaces (strip ''A'') \<and> \<not> is_heading ''A''"
  by code_simp

section \<open>Session construction\<close>

text \<open>
  C9. When the path does not exist, constructing the session fails with the file-not-found
  error, and the whole run fails with it whatever the two backends would do, so neither is
  consulted; when the path exists, construction gives the initial session.
\<close>

theorem init_checks_path_first:
  "(path \<notin> fs \<longrightarrow>
      PDFParser_init fs path = Inl (FileNotFoundError (''PDF File not found '' @ path))
      \<and> (\<forall>be. main_extract fs be path = Inl (FileNotFoundError (''PDF File not found '' @ path))))
   \<and> (path \<in> fs \<longrightarrow>
      PDFParser_init fs path
        = Inr \<lparr>pdf_path = path, pages_data = [], current_section = None,
               current_sub_section = None\<rparr>)"
  by (simp add: PDFParser_init_def main_extract_def)

theorem init_checks_path_first_witness:
  "''b.pdf'' \<notin> {''a.pdf''}
   \<and> PDFParser_init {''a.pdf''} ''b.pdf'' = Inl (FileNotFoundError ''PDF File not found b.pdf'')
   \<and> main_extract {''a.pdf''}
        \<lparr>pdfplumber_open = (\<lambda>p. Inl (BackendFailure ''open'')),
         camelot_read_pdf = (\<lambda>p. Inl (BackendFailure ''read''))\<rparr> ''b.pdf''
       = Inl (FileNotFoundError ''PDF File not found b.pdf'')
   \<and> PDFParser_init {''a.pdf''} ''a.pdf''
       = Inr \<lparr>pdf_path = ''a.pdf'', pages_data = [], current_section = None,
              current_sub_section = None\<rparr>"
  using init_checks_path_first [of "''b.pdf''" "{''a.pdf''}"]
    init_checks_path_first [of "''a.pdf''" "{''a.pdf''}"]
  by simp

section \<open>Paragraph segmentation\<close>

lemma heading_intro: "is_heading ''1. Introduction''"
  by code_simp

lemma not_heading_test: "\<not> is_heading ''This is a test.''"
  by code_simp

lemma not_heading_more: "\<not> is_heading ''More text here.''"
  by code_simp

text \<open>
  C5. From the empty cursor the text \<open>1. Introduction\<close>, \<open>This is a test.\<close>, a blank
  line, \<open>More text here.\<close> gives exactly two paragraphs, both in section
  \<open>1. Introduction\<close>; the heading is not among them.
\<close>

theorem introduction_scenario:
  "fst (extract_paragraphs
         \<lparr>pdf_path = path, pages_data = [], current_section = None, current_sub_section = None\<rparr>
         (''1. Introduction'' @ [newline] @ ''This is a test.'' @ [newline, newline]
            @ ''More text here.'') page_num)
   = [[(''type'', PStr ''paragraph''), (''section'', PStr ''1. Introduction''),
       (''sub_section'', PNone), (''text'', PStr ''This is a test.'')],
      [(''type'', PStr ''paragraph''), (''section'', PStr ''1. Introduction''),
       (''sub_section'', PNone), (''text'', PStr ''More text here.'')]]"
proof -
  have sp: "split_nl (''1. Introduction'' @ [newline] @ ''This is a test.'' @ [newline, newline]
            @ ''More text here.'')
     = [''1. Introduction'', ''This is a test.'', [], ''More text here.'']"
    by (simp add: newline_def)
  have s1: "strip ''1. Introduction'' = ''1. Introduction''" by code_simp
  have s2: "strip ''This is a test.'' = ''This is a test.''" by code_simp
  have s3: "strip [] = []" by code_simp
  have s4: "strip ''More text here.'' = ''More text here.''" by code_simp
  have m: "re_match pat_numbered ''1. Introduction''" by code_simp
  show ?thesis
    unfolding extract_paragraphs_def sp
    by (simp add: s1 s2 s3 s4 heading_intro not_heading_test not_heading_more m
        update_sections_def flush_blank_def flush_end_def detect_section_def opt_str_def Let_def)
qed

text \<open>
  C2. With a buffer that holds text, the flush at a heading line emits a paragraph without
  the key \<open>sub_section\<close>; the flush at a blank line and the flush after the last line
  emit one with it.
\<close>

theorem heading_flush_omits_sub_section:
  assumes "current_paragraph \<noteq> []" and "join '' '' current_paragraph \<noteq> []"
  shows "flush_heading self current_paragraph
           = [[(''type'', PStr ''paragraph''), (''section'', opt_str (current_section self)),
               (''text'', PStr (join '' '' current_paragraph))]]
    \<and> flush_blank self current_paragraph
           = [[(''type'', PStr ''paragraph''), (''section'', opt_str (current_section self)),
               (''sub_section'', opt_str (current_sub_section self)),
               (''text'', PStr (join '' '' current_paragraph))]]
    \<and> flush_end self current_paragraph
           = [[(''type'', PStr ''paragraph''), (''section'', opt_str (current_section self)),
               (''sub_section'', opt_str (current_sub_section self)),
               (''text'', PStr (join '' '' current_paragraph))]]
    \<and> (\<forall>l ls ps. strip l \<noteq> [] \<and> is_heading (strip l) \<longrightarrow>
          paragraph_loop (l # ls) self ps current_paragraph
            = paragraph_loop ls (update_sections (strip l) self)
                (ps @ flush_heading self current_paragraph) [])
    \<and> (\<forall>l ls ps. strip l = [] \<longrightarrow>
          paragraph_loop (l # ls) self ps current_paragraph
            = paragraph_loop ls self (ps @ flush_blank self current_paragraph) [])
    \<and> (\<forall>ps. paragraph_loop [] self ps current_paragraph
            = (ps @ flush_end self current_paragraph, self))"
  using assms
  by (simp add: flush_heading_def flush_blank_def flush_end_def detect_section_def Let_def)

theorem introduction_scenario_witness:
  "fst (extract_paragraphs
         \<lparr>pdf_path = ''a.pdf'', pages_data = [], current_section = None,
          current_sub_section = None\<rparr>
         (''1. Introduction'' @ [newline] @ ''This is a test.'' @ [newline, newline]
            @ ''More text here.'') 1)
   = [[(''type'', PStr ''paragraph''), (''section'', PStr ''1. Introduction''),
       (''sub_section'', PNone), (''text'', PStr ''This is a test.'')],
      [(''type'', PStr ''paragraph''), (''section'', PStr ''1. Introduction''),
       (''sub_section'', PNone), (''text'', PStr ''More text here.'')]]"
  using introduction_scenario [of "''a.pdf''" 1] by simp

lemma heading_two: "is_heading ''HEADING TWO''"
  by code_simp

lemma not_heading_alpha: "\<not> is_heading ''alpha''"
  by code_simp

lemma not_heading_beta: "\<not> is_heading ''beta''"
  by code_simp

theorem heading_flush_omits_sub_section_witness:
  "fst (extract_paragraphs
         \<lparr>pdf_path = ''a.pdf'', pages_data = [], current_section = Some ''ONE'',
          current_sub_section = Some ''Part''\<rparr>
         (''alpha'' @ [newline] @ ''HEADING TWO'' @ [newline] @ ''beta'' @ [newline, newline]
            @ ''beta'') 1)
   = [[(''type'', PStr ''paragraph''), (''section'', PStr ''ONE''), (''text'', PStr ''alpha'')],
      [(''type'', PStr ''paragraph''), (''section'', PStr ''ONE''),
       (''sub_section'', PStr ''HEADING TWO''), (''text'', PStr ''beta'')],
      [(''type'', PStr ''paragraph''), (''section'', PStr ''ONE''),
       (''sub_section'', PStr ''HEADING TWO''), (''text'', PStr ''beta'')]]"
proof -
  let ?s = "\<lparr>pdf_path = ''a.pdf'', pages_data = [], current_section = Some ''ONE'',
          current_sub_section = Some ''Part''\<rparr>"
  have sp: "split_nl (''alpha'' @ [newline] @ ''HEADING TWO'' @ [newline] @ ''beta''
              @ [newline, newline] @ ''beta'')
     = [''alpha'', ''HEADING TWO'', ''beta'', [], ''beta'']"
    by (simp add: newline_def)
  have s1: "strip ''alpha'' = ''alpha''" by code_simp
  have s2: "strip ''HEADING TWO'' = ''HEADING TWO''" by code_simp
  have s3: "strip ''beta'' = ''beta''" by code_simp
  have s4: "strip [] = []" by code_simp
  have m: "\<not> re_match pat_numbered ''HEADING TWO''" by code_simp
  have u: "update_sections ''HEADING TWO'' ?s = ?s\<lparr>current_sub_section := Some ''HEADING TWO''\<rparr>"
    by (simp add: update_sections_def s2 m truthy_def)
  have a: "[''alpha''] \<noteq> []" "join '' '' [''alpha''] \<noteq> []" by simp_all
  have b: "[''beta''] \<noteq> []" "join '' '' [''beta''] \<noteq> []" by simp_all
  note th = heading_flush_omits_sub_section [OF a, of ?s]
  from th have bh_eq: "flush_heading ?s [''alpha'']
      = [[(''type'', PStr ''paragraph''), (''section'', PStr ''ONE''), (''text'', PStr ''alpha'')]]"
    by (simp add: opt_str_def)
  from th have bh: "\<And>l ls ps. strip l \<noteq> [] \<Longrightarrow> is_heading (strip l) \<Longrightarrow>
          paragraph_loop (l # ls) ?s ps [''alpha'']
            = paragraph_loop ls (update_sections (strip l) ?s)
                (ps @ flush_heading ?s [''alpha'']) []"
    by blast
  have step1: "paragraph_loop [''alpha'', ''HEADING TWO'', ''beta'', [], ''beta''] ?s [] []
       = paragraph_loop [''HEADING TWO'', ''beta'', [], ''beta''] ?s [] [''alpha'']"
    by (subst paragraph_loop.simps) (simp add: s1 not_heading_alpha Let_def del: paragraph_loop.simps)
  have step2: "paragraph_loop [''HEADING TWO'', ''beta'', [], ''beta''] ?s [] [''alpha'']
       = paragraph_loop [''beta'', [], ''beta''] (update_sections ''HEADING TWO'' ?s)
           (flush_heading ?s [''alpha'']) []"
    using bh [of "''HEADING TWO''" "[''beta'', [], ''beta'']" "[]"] s2 heading_two
    by (simp del: paragraph_loop.simps)
  have step3: "paragraph_loop [''beta'', [], ''beta''] (update_sections ''HEADING TWO'' ?s)
           (flush_heading ?s [''alpha'']) []
       = ([[(''type'', PStr ''paragraph''), (''section'', PStr ''ONE''), (''text'', PStr ''alpha'')],
           [(''type'', PStr ''paragraph''), (''section'', PStr ''ONE''),
            (''sub_section'', PStr ''HEADING TWO''), (''text'', PStr ''beta'')],
           [(''type'', PStr ''paragraph''), (''section'', PStr ''ONE''),
            (''sub_section'', PStr ''HEADING TWO''), (''text'', PStr ''beta'')]],
          update_sections ''HEADING TWO'' ?s)"
    unfolding u bh_eq
    by (simp add: s3 s4 not_heading_beta flush_blank_def flush_end_def detect_section_def
        opt_str_def Let_def)
  show ?thesis
    unfolding extract_paragraphs_def sp step1 step2 step3 by simp
qed

section \<open>Chart detection\<close>

lemma charts_loop_filter:
  "charts_loop self page_num i imgs charts
   = charts @ map (\<lambda>(k, img). chart_block self k page_num img)
       (filter (\<lambda>(k, img). chart_sized img) (enumerate i imgs))"
  by (induction imgs arbitrary: i charts) (simp_all add: chart_sized_def)

text \<open>
  C6. The charts of a page are the blocks of exactly those images whose width and height
  both exceed 100, a missing width or height counting as 0, each with its position among
  all images of the page. The image of width 150 and height 120 gives one chart, the image
  of width 50 and height 200 none.
\<close>

theorem detect_charts_threshold:
  "detect_charts self None page_num = []
   \<and> detect_charts self (Some imgs) page_num
       = map (\<lambda>(k, img). chart_block self k page_num img)
           (filter (\<lambda>(k, img). chart_sized img) (enumerate 0 imgs))
   \<and> (length (detect_charts self (Some [img]) page_num) = 1 \<longleftrightarrow> chart_sized img)
   \<and> (detect_charts self (Some [img]) page_num = [] \<longleftrightarrow> \<not> chart_sized img)
   \<and> chart_sized img
       = (100 < (case map_of img ''width'' of None \<Rightarrow> 0 | Some v \<Rightarrow> v)
          \<and> 100 < (case map_of img ''height'' of None \<Rightarrow> 0 | Some v \<Rightarrow> v))
   \<and> detect_charts self
         (Some [[(''width'', 150), (''height'', 120), (''x0'', 10), (''y0'', 20)]]) page_num
       = [chart_block self 0 page_num
            [(''width'', 150), (''height'', 120), (''x0'', 10), (''y0'', 20)]]
   \<and> detect_charts self (Some [[(''width'', 50), (''height'', 200)]]) page_num = []"
  by (cases imgs) (simp_all add: detect_charts_def charts_loop_filter chart_sized_def img_get0_def)

theorem detect_charts_threshold_witness:
  "detect_charts \<lparr>pdf_path = ''a.pdf'', pages_data = [], current_section = None,
                   current_sub_section = None\<rparr>
     (Some [[(''width'', 150), (''height'', 120), (''x0'', 10), (''y0'', 20)]]) 3
   = [[(''type'', PStr ''chart''), (''section'', PNone), (''sub_section'', PNone),
       (''description'', PStr ''Chart/Image 1 detected on page 3''),
       (''image_info'', PDict [(''width'', PNum 150), (''height'', PNum 120),
                               (''x0'', PNum 10), (''y0'', PNum 20)])]]
   \<and> detect_charts \<lparr>pdf_path = ''a.pdf'', pages_data = [], current_section = None,
                     current_sub_section = None\<rparr>
       (Some [[(''width'', 50), (''height'', 200)]]) 3 = []"
proof -
  have d1: "str_of_int 1 = ''1''" by code_simp
  have d3: "str_of_int 3 = ''3''" by code_simp
  show ?thesis
    using detect_charts_threshold
      [of "\<lparr>pdf_path = ''a.pdf'', pages_data = [], current_section = None,
             current_sub_section = None\<rparr>" 3
          "[[(''width'', 150), (''height'', 120), (''x0'', 10), (''y0'', 20)]]"]
      detect_charts_threshold
      [of "\<lparr>pdf_path = ''a.pdf'', pages_data = [], current_section = None,
             current_sub_section = None\<rparr>" 3
          "[[(''width'', 50), (''height'', 200)]]"]
    by (simp add: chart_sized_def img_get0_def img_get_def chart_block_def opt_str_def d1 d3)
qed

section \<open>Tables of the primary backend\<close>

lemma clean_rows_filter:
  "clean_rows table cleaned_table = cleaned_table @ filter any_cell (map (map clean_cell) table)"
  by (induction table arbitrary: cleaned_table) (simp_all add: Let_def)

lemma tables_loop_filter:
  "tables_loop self page_num i page_tables tables
   = tables @ map (\<lambda>(k, t). table_block self k page_num (normalize t))
       (filter (\<lambda>(k, t). normalize t \<noteq> []) (enumerate i page_tables))"
proof (induction page_tables arbitrary: i tables)
  case Nil
  show ?case by simp
next
  case (Cons t ts)
  have "t = [] \<Longrightarrow> normalize t = []" by (simp add: normalize_def)
  then show ?case
    by (auto simp: Cons clean_rows_filter normalize_def Let_def)
qed

lemma clean_cell_strip: "clean_cell (Some s) = strip s"
  by (simp add: clean_cell_def strip_def)

lemma table_rows_block: "table_rows (table_block self k page_num rows) = map (map PStr) rows"
  by (simp add: table_rows_def table_block_def)

lemma normalize_row: "r \<in> set (normalize t) \<Longrightarrow> \<not> row_all_empty (map PStr r)"
  by (auto simp: normalize_def any_cell_def row_all_empty_def list_ex_iff list_all_iff)

text \<open>
  C7. A null cell becomes the empty string and any other cell is stripped; rows without a
  non-empty cell are dropped, and so are tables without a row left. Hence every emitted
  table has rows and none of its rows is entirely empty. The raw table with rows
  \<open>A, B\<close> and two empty cells gives the single row \<open>A, B\<close>.
\<close>

theorem primary_tables_normalized:
  "clean_cell None = [] \<and> clean_cell (Some s) = strip s
   \<and> normalize table = filter (\<lambda>row. list_ex (\<lambda>c. c \<noteq> []) row) (map (map clean_cell) table)
   \<and> extract_tables_pdfplumber self page_tables page_num
       = map (\<lambda>(k, t). table_block self k page_num (normalize t))
           (filter (\<lambda>(k, t). normalize t \<noteq> []) (enumerate 0 page_tables))
   \<and> (\<forall>b \<in> set (extract_tables_pdfplumber self page_tables page_num).
         table_rows b \<noteq> [] \<and> (\<forall>row \<in> set (table_rows b). \<not> row_all_empty row))
   \<and> normalize [[Some ''A'', Some ''B''], [Some '''', Some '''']] = [[''A'', ''B'']]"
proof -
  have ex: "normalize [[Some ''A'', Some ''B''], [Some '''', Some '''']] = [[''A'', ''B'']]"
    by code_simp
  have "table_rows b \<noteq> [] \<and> (\<forall>row \<in> set (table_rows b). \<not> row_all_empty row)"
    if "b \<in> set (extract_tables_pdfplumber self page_tables page_num)" for b
  proof -
    from that obtain k t where "b = table_block self k page_num (normalize t)" "normalize t \<noteq> []"
      by (auto simp: extract_tables_pdfplumber_def tables_loop_filter)
    then show ?thesis
      using normalize_row [of _ t] by (auto simp: table_rows_block)
  qed
  moreover have "normalize table = filter (\<lambda>row. list_ex (\<lambda>c. c \<noteq> []) row) (map (map clean_cell) table)"
    unfolding normalize_def any_cell_def by (rule filter_cong) simp_all
  ultimately show ?thesis
    by (simp add: ex clean_cell_strip extract_tables_pdfplumber_def tables_loop_filter)
      (simp add: clean_cell_def)
qed

theorem primary_tables_normalized_witness:
  "extract_tables_pdfplumber \<lparr>pdf_path = ''a.pdf'', pages_data = [], current_section = None,
                   current_sub_section = None\<rparr>
     [[[Some ''A'', Some ''B''], [Some '''', Some '''']], [[None, Some '' '']]] 2
   = [[(''type'', PStr ''table''), (''section'', PNone), (''sub_section'', PNone),
       (''description'', PStr ''table 1 from page 2''),
       (''table_data'', PRows [[PStr ''A'', PStr ''B'']])]]"
proof -
  have d1: "str_of_int 1 = ''1''" by code_simp
  have d2: "str_of_int 2 = ''2''" by code_simp
  have s1: "strip ''A'' = ''A''" "strip ''B'' = ''B''" "strip '' '' = []" by code_simp+
  show ?thesis
    using primary_tables_normalized
      [where table = "[[Some ''A'', Some ''B''], [Some '''', Some '''']]"
         and self = "\<lparr>pdf_path = ''a.pdf'', pages_data = [], current_section = None,
             current_sub_section = None\<rparr>"
         and page_tables = "[[[Some ''A'', Some ''B''], [Some '''', Some '''']], [[None, Some '' '']]]"
         and page_num = 2]
    by (simp add: normalize_def any_cell_def clean_cell_def s1 table_block_def opt_str_def d1 d2)
qed

section \<open>Blocks are stamped with the current section\<close>

lemma update_sections_fields [simp]:
  "pdf_path (update_sections line self) = pdf_path self"
  "pages_data (update_sections line self) = pages_data self"
  by (simp_all add: update_sections_def Let_def)

lemma update_sections_keeps:
  assumes "current_section self \<noteq> None"
  shows "current_section (update_sections line self) \<noteq> None"
    and "current_section (update_sections line self) = Some (strip line)
         \<or> current_section (update_sections line self) = current_section self"
  using assms by (simp_all add: update_sections_def Let_def)

lemma flush_stamped:
  assumes "current_section self \<noteq> None"
  shows "\<forall>b \<in> set (flush_blank self cp). stamped b"
    and "\<forall>b \<in> set (flush_heading self cp). stamped b"
    and "\<forall>b \<in> set (flush_end self cp). stamped b"
  using assms
  by (auto simp: flush_blank_def flush_heading_def flush_end_def detect_section_def Let_def
      stamped_def opt_str_def)

lemma flush_typed:
  "\<forall>b \<in> set (flush_blank self cp). typed b"
  "\<forall>b \<in> set (flush_heading self cp). typed b"
  "\<forall>b \<in> set (flush_end self cp). typed b"
  by (auto simp: flush_blank_def flush_heading_def flush_end_def detect_section_def Let_def
      typed_def)

lemma paragraph_loop_fields:
  "pdf_path (snd (paragraph_loop lines self ps cp)) = pdf_path self
   \<and> pages_data (snd (paragraph_loop lines self ps cp)) = pages_data self"
  by (induction lines arbitrary: self ps cp) (simp_all add: Let_def)

lemma paragraph_loop_typed:
  "\<forall>b \<in> set ps. typed b \<Longrightarrow> \<forall>b \<in> set (fst (paragraph_loop lines self ps cp)). typed b"
proof (induction lines arbitrary: self ps cp)
  case Nil
  then show ?case using flush_typed(3) [of self cp] by auto
next
  case (Cons l ls)
  have 1: "\<forall>b \<in> set (ps @ flush_blank self cp). typed b"
    using Cons.prems flush_typed(1) [of self cp] by auto
  have 2: "\<forall>b \<in> set (ps @ flush_heading self cp). typed b"
    using Cons.prems flush_typed(2) [of self cp] by auto
  show ?case
    using Cons.IH [OF 1] Cons.IH [OF 2] Cons.IH [OF Cons.prems]
    by (simp add: Let_def)
qed

lemma paragraph_loop_stamped:
  assumes "current_section self \<noteq> None" and "\<forall>b \<in> set ps. stamped b"
  shows "(\<forall>b \<in> set (fst (paragraph_loop lines self ps cp)). stamped b)
       \<and> current_section (snd (paragraph_loop lines self ps cp)) \<noteq> None"
  using assms
proof (induction lines arbitrary: self ps cp)
  case Nil
  then show ?case using flush_stamped(3) [of self cp] by auto
next
  case (Cons l ls)
  have 1: "\<forall>b \<in> set (ps @ flush_blank self cp). stamped b"
    using Cons.prems flush_stamped(1) [of self cp] by auto
  have 2: "\<forall>b \<in> set (ps @ flush_heading self cp). stamped b"
    using Cons.prems flush_stamped(2) [of self cp] by auto
  have 3: "current_section (update_sections (strip l) self) \<noteq> None"
    using Cons.prems(1) by (rule update_sections_keeps(1))
  show ?case
    using Cons.IH [OF Cons.prems(1) 1] Cons.IH [OF 3 2] Cons.IH [OF 3 Cons.prems(2)]
      Cons.IH [OF Cons.prems]
    by (simp add: Let_def)
qed

lemma extract_paragraphs_stamped:
  assumes "current_section self \<noteq> None"
  shows "(\<forall>b \<in> set (fst (extract_paragraphs self text n)). stamped b)
       \<and> current_section (snd (extract_paragraphs self text n)) \<noteq> None"
  unfolding extract_paragraphs_def using paragraph_loop_stamped [OF assms, of "[]"] by simp

lemma table_block_stamped: "current_section self \<noteq> None \<Longrightarrow> stamped (table_block self k n rows)"
  by (auto simp: table_block_def stamped_def opt_str_def)

lemma chart_block_stamped: "current_section self \<noteq> None \<Longrightarrow> stamped (chart_block self k n img)"
  by (auto simp: chart_block_def stamped_def opt_str_def)


lemma extract_tables_stamped:
  "current_section self \<noteq> None \<Longrightarrow> b \<in> set (extract_tables_pdfplumber self tabs n) \<Longrightarrow> stamped b"
  by (auto simp: extract_tables_pdfplumber_def tables_loop_filter table_block_stamped)

lemma detect_charts_stamped:
  "current_section self \<noteq> None \<Longrightarrow> b \<in> set (detect_charts self imgs n) \<Longrightarrow> stamped b"
  by (cases imgs) (auto simp: detect_charts_def charts_loop_filter chart_block_stamped)

lemma extract_tables_typed: "b \<in> set (extract_tables_pdfplumber self tabs n) \<Longrightarrow> typed b"
  by (auto simp: extract_tables_pdfplumber_def tables_loop_filter table_block_def typed_def)

lemma detect_charts_typed: "b \<in> set (detect_charts self imgs n) \<Longrightarrow> typed b"
  by (cases imgs) (auto simp: detect_charts_def charts_loop_filter chart_block_def typed_def)

lemma process_page_unfold:
  "process_page self pg n =
     (\<lparr>page_number = n,
       content = fst (paragraphs_of self pg n)
         @ extract_tables_pdfplumber (snd (paragraphs_of self pg n)) (extract_tables pg) n
         @ detect_charts (snd (paragraphs_of self pg n)) (images pg) n\<rparr>,
      snd (paragraphs_of self pg n))"
  by (simp add: process_page_def paragraphs_of_def Let_def split: prod.splits)

lemma paragraphs_of_fields:
  "pdf_path (snd (paragraphs_of self pg n)) = pdf_path self"
  "pages_data (snd (paragraphs_of self pg n)) = pages_data self"
  by (simp_all add: paragraphs_of_def extract_paragraphs_def paragraph_loop_fields
      split: option.splits)

lemma paragraphs_of_typed: "b \<in> set (fst (paragraphs_of self pg n)) \<Longrightarrow> typed b"
  using paragraph_loop_typed [of "[]" _ self "[]"]
  by (auto simp: paragraphs_of_def extract_paragraphs_def split: option.splits if_splits)

lemma paragraphs_of_stamped:
  assumes "current_section self \<noteq> None"
  shows "b \<in> set (fst (paragraphs_of self pg n)) \<Longrightarrow> stamped b"
    and "current_section (snd (paragraphs_of self pg n)) \<noteq> None"
  using assms extract_paragraphs_stamped [OF assms, of _ n]
  by (auto simp: paragraphs_of_def split: option.splits if_splits)

lemma process_page_fields:
  "pdf_path (snd (process_page self pg n)) = pdf_path self"
  "pages_data (snd (process_page self pg n)) = pages_data self"
  "page_number (fst (process_page self pg n)) = n"
  by (simp_all add: process_page_unfold paragraphs_of_fields)

lemma process_page_typed: "b \<in> set (content (fst (process_page self pg n))) \<Longrightarrow> typed b"
  by (auto simp: process_page_unfold
      dest: paragraphs_of_typed extract_tables_typed detect_charts_typed)

lemma process_page_stamped:
  assumes "current_section self \<noteq> None"
  shows "b \<in> set (content (fst (process_page self pg n))) \<Longrightarrow> stamped b"
    and "current_section (snd (process_page self pg n)) \<noteq> None"
proof -
  let ?self1 = "snd (paragraphs_of self pg n)"
  have sec: "current_section ?self1 \<noteq> None"
    using assms by (rule paragraphs_of_stamped(2))
  then show "current_section (snd (process_page self pg n)) \<noteq> None"
    by (simp add: process_page_unfold)
  assume "b \<in> set (content (fst (process_page self pg n)))"
  then consider "b \<in> set (fst (paragraphs_of self pg n))"
    | "b \<in> set (extract_tables_pdfplumber ?self1 (extract_tables pg) n)"
    | "b \<in> set (detect_charts ?self1 (images pg) n)"
    by (auto simp: process_page_unfold)
  then show "stamped b"
  proof cases
    case 1
    with assms show ?thesis by (rule paragraphs_of_stamped(1))
  next
    case 2
    with sec show ?thesis by (rule extract_tables_stamped)
  next
    case 3
    with sec show ?thesis by (rule detect_charts_stamped)
  qed
qed

section \<open>Reconciliation with the fallback tables\<close>

lemma extends_refl: "extends P ps ps"
  by (simp add: extends_def)

lemma extends_trans:
  assumes "extends P ps ps'" and "extends P ps' ps''"
  shows "extends P ps ps''"
  unfolding extends_def
proof (intro conjI allI impI)
  show "length ps'' = length ps" using assms by (simp add: extends_def)
next
  fix j assume j: "j < length ps"
  then show "page_number (ps'' ! j) = page_number (ps ! j)" using assms by (simp add: extends_def)
  from j assms obtain a where a: "content (ps' ! j) = content (ps ! j) @ a" "list_all P a"
    by (auto simp: extends_def)
  from j assms obtain b where b: "content (ps'' ! j) = content (ps' ! j) @ b" "list_all P b"
    by (auto simp: extends_def)
  from a b have "content (ps'' ! j) = content (ps ! j) @ (a @ b) \<and> list_all P (a @ b)" by simp
  then show "\<exists>added. content (ps'' ! j) = content (ps ! j) @ added \<and> list_all P added" by blast
qed

lemma extends_update:
  assumes "k < length ps" and "P b"
  shows "extends P ps (ps[k := (ps ! k)\<lparr>content := content (ps ! k) @ [b]\<rparr>])"
  unfolding extends_def
proof (intro conjI allI impI)
  fix j assume "j < length ps"
  then show "page_number (ps[k := (ps ! k)\<lparr>content := content (ps ! k) @ [b]\<rparr>] ! j) = page_number (ps ! j)"
    by (cases "j = k") simp_all
  show "\<exists>added. content (ps[k := (ps ! k)\<lparr>content := content (ps ! k) @ [b]\<rparr>] ! j)
          = content (ps ! j) @ added \<and> list_all P added"
  proof (cases "j = k")
    case True
    with assms show ?thesis by (intro exI [of _ "[b]"]) simp
  next
    case False
    then show ?thesis by (intro exI [of _ "[]"]) simp
  qed
qed simp

lemma py_index_bound: "py_index xs i = Inr j \<Longrightarrow> j < length xs"
  by (auto simp: py_index_def split: if_splits)

lemma py_index_positive:
  "1 \<le> n \<Longrightarrow> n \<le> int (length xs) \<Longrightarrow> py_index xs (n - 1) = Inr (nat (n - 1))"
  by (simp add: py_index_def)

lemma fallback_block_pages [simp]:
  "fallback_block (self\<lparr>pages_data := ps\<rparr>) = fallback_block self"
  by (rule ext)+ (simp add: fallback_block_def)

lemma camelot_loop_extends:
  "camelot_loop i ts self = Inr self' \<Longrightarrow>
     extends (\<lambda>b. \<exists>pn td. b = fallback_block self pn td) (pages_data self) (pages_data self')
     \<and> current_section self' = current_section self
     \<and> current_sub_section self' = current_sub_section self
     \<and> pdf_path self' = pdf_path self"
proof (induction ts arbitrary: i self)
  case Nil
  then show ?case by (simp add: extends_refl)
next
  case (Cons t ts)
  let ?P = "\<lambda>b. \<exists>pn td. b = fallback_block self pn td"
  show ?case
  proof (cases "\<not> df_empty t \<and> tbl_page t \<le> int (length (pages_data self))")
    case False
    then have "camelot_loop (Suc i) ts self = Inr self'"
      using Cons.prems by (auto simp: Let_def split: if_splits)
    then show ?thesis by (rule Cons.IH)
  next
    case True
    with Cons.prems obtain j where j: "py_index (pages_data self) (tbl_page t - 1) = Inr j"
      by (auto simp: Let_def split: sum.splits)
    with True Cons.prems obtain existing
      where ex: "existing_tables (content (pages_data self ! j)) = Inr existing"
      by (auto simp: Let_def split: sum.splits)
    show ?thesis
    proof (cases "length existing \<le> i")
      case False
      with True j ex Cons.prems have "camelot_loop (Suc i) ts self = Inr self'"
        by (simp add: Let_def)
      then show ?thesis by (rule Cons.IH)
    next
      case le: True
      let ?b = "fallback_block self (tbl_page t) ([df_columns t] @ df_values t)"
      let ?ps = "(pages_data self)[j := (pages_data self ! j)
                    \<lparr>content := content (pages_data self ! j) @ [?b]\<rparr>]"
      from le True j ex Cons.prems
      have "camelot_loop (Suc i) ts (self\<lparr>pages_data := ?ps\<rparr>) = Inr self'"
        by (simp add: Let_def)
      from Cons.IH [OF this]
      have ih: "extends ?P ?ps (pages_data self')"
        and rest: "current_section self' = current_section self"
          "current_sub_section self' = current_sub_section self" "pdf_path self' = pdf_path self"
        by simp_all
      have "extends ?P (pages_data self) ?ps"
        using py_index_bound [OF j] by (intro extends_update) auto
      with ih have "extends ?P (pages_data self) (pages_data self')"
        by (rule extends_trans [rotated])
      with rest show ?thesis by simp
    qed
  qed
qed

lemma existing_tables_typed:
  "\<forall>b \<in> set bs. typed b \<Longrightarrow>
     existing_tables bs = Inr (filter (\<lambda>b. map_of b ''type'' = Some (PStr ''table'')) bs)"
  by (induction bs) (auto simp: typed_def)

lemma all_typed_update:
  assumes "all_typed ps" and "typed b"
  shows "all_typed (ps[k := (ps ! k)\<lparr>content := content (ps ! k) @ [b]\<rparr>])"
proof (cases "k < length ps")
  case True
  have "set (ps[k := (ps ! k)\<lparr>content := content (ps ! k) @ [b]\<rparr>])
        \<subseteq> insert ((ps ! k)\<lparr>content := content (ps ! k) @ [b]\<rparr>) (set ps)"
    by (rule set_update_subset_insert)
  moreover have "\<forall>x \<in> set (content (ps ! k)). typed x"
    using assms(1) True by (auto simp: all_typed_def)
  ultimately show ?thesis
    using assms unfolding all_typed_def by fastforce
next
  case False
  then have "length ps \<le> k" by simp
  then have "ps[k := (ps ! k)\<lparr>content := content (ps ! k) @ [b]\<rparr>] = ps"
    by (rule list_update_beyond)
  with assms(1) show ?thesis by simp
qed

lemma fallback_block_typed: "typed (fallback_block self n td)"
  by (simp add: fallback_block_def typed_def)

lemma camelot_loop_total:
  assumes "\<forall>t \<in> set ts. 1 \<le> tbl_page t" and "all_typed (pages_data self)"
  shows "\<exists>self'. camelot_loop i ts self = Inr self'"
  using assms
proof (induction ts arbitrary: i self)
  case Nil
  show ?case by simp
next
  case (Cons t ts)
  have rest: "\<forall>t \<in> set ts. 1 \<le> tbl_page t" using Cons.prems(1) by simp
  show ?case
  proof (cases "\<not> df_empty t \<and> tbl_page t \<le> int (length (pages_data self))")
    case False
    then show ?thesis using Cons.IH [OF rest Cons.prems(2), of "Suc i"]
      by (auto simp: Let_def)
  next
    case True
    let ?j = "nat (tbl_page t - 1)"
    have j: "py_index (pages_data self) (tbl_page t - 1) = Inr ?j"
      using True Cons.prems(1) by (intro py_index_positive) simp_all
    have lt: "?j < length (pages_data self)" using j by (rule py_index_bound)
    then have "\<forall>b \<in> set (content (pages_data self ! ?j)). typed b"
      using Cons.prems(2) by (auto simp: all_typed_def)
    then have ex: "existing_tables (content (pages_data self ! ?j))
         = Inr (filter (\<lambda>b. map_of b ''type'' = Some (PStr ''table'')) (content (pages_data self ! ?j)))"
      by (rule existing_tables_typed)
    let ?b = "fallback_block self (tbl_page t) ([df_columns t] @ df_values t)"
    let ?ps = "(pages_data self)[?j := (pages_data self ! ?j)
                    \<lparr>content := content (pages_data self ! ?j) @ [?b]\<rparr>]"
    have "all_typed ?ps"
      using Cons.prems(2) fallback_block_typed by (rule all_typed_update)
    then have "\<exists>self'. camelot_loop (Suc i) ts (self\<lparr>pages_data := ?ps\<rparr>) = Inr self'"
      using Cons.IH [OF rest, of "self\<lparr>pages_data := ?ps\<rparr>" "Suc i"] by simp
    then show ?thesis
      using True j ex Cons.IH [OF rest Cons.prems(2), of "Suc i"]
      by (auto simp: Let_def)
  qed
qed

section \<open>The loop over the pages\<close>

lemma pages_loop_step:
  "pages_loop n (pg # pgs) self
   = pages_loop (n + 1) pgs
       ((snd (process_page self pg n))
          \<lparr>pages_data := pages_data self @ [fst (process_page self pg n)]\<rparr>)"
  by (simp add: process_page_fields split: prod.splits)
     (metis fst_conv snd_conv process_page_fields(2))

lemma upt_shift: "map (\<lambda>k. n + int k) [0..<Suc m] = n # map (\<lambda>k. (n + 1) + int k) [0..<m]"
proof -
  have "[0..<Suc m] = 0 # map Suc [0..<m]"
    by (simp add: upt_conv_Cons map_Suc_upt del: upt_Suc)
  then show ?thesis by (simp add: comp_def del: upt_Suc)
qed

lemma pages_loop_new:
  "\<exists>new. pages_data (pages_loop n pgs self) = pages_data self @ new
     \<and> map page_number new = map (\<lambda>k. n + int k) [0..<length pgs]
     \<and> (\<forall>p \<in> set new. \<forall>b \<in> set (content p). typed b)
     \<and> (current_section self \<noteq> None \<longrightarrow> (\<forall>p \<in> set new. \<forall>b \<in> set (content p). stamped b))
     \<and> (current_section self \<noteq> None \<longrightarrow> current_section (pages_loop n pgs self) \<noteq> None)
     \<and> pdf_path (pages_loop n pgs self) = pdf_path self"
proof (induction pgs arbitrary: n self)
  case Nil
  show ?case by simp
next
  case (Cons pg pgs)
  let ?pp = "process_page self pg n"
  let ?self1 = "(snd ?pp)\<lparr>pages_data := pages_data self @ [fst ?pp]\<rparr>"
  from Cons.IH [of "n + 1" ?self1] obtain new
    where new: "pages_data (pages_loop (n + 1) pgs ?self1) = (pages_data self @ [fst ?pp]) @ new"
      "map page_number new = map (\<lambda>k. (n + 1) + int k) [0..<length pgs]"
      "\<forall>p \<in> set new. \<forall>b \<in> set (content p). typed b"
      "current_section ?self1 \<noteq> None \<longrightarrow> (\<forall>p \<in> set new. \<forall>b \<in> set (content p). stamped b)"
      "current_section ?self1 \<noteq> None \<longrightarrow> current_section (pages_loop (n + 1) pgs ?self1) \<noteq> None"
      "pdf_path (pages_loop (n + 1) pgs ?self1) = pdf_path ?self1"
    by auto
  have sec: "current_section self \<noteq> None \<Longrightarrow> current_section ?self1 \<noteq> None"
    using process_page_stamped(2) [of self pg n] by simp
  have st: "current_section self \<noteq> None \<Longrightarrow> \<forall>b \<in> set (content (fst ?pp)). stamped b"
    using process_page_stamped(1) [of self _ pg n] by blast
  have ty: "\<forall>b \<in> set (content (fst ?pp)). typed b"
    using process_page_typed [of _ self pg n] by blast
  show ?case
    unfolding pages_loop_step
    apply (rule exI [of _ "fst ?pp # new"])
    using new sec st ty
    by (simp add: process_page_fields upt_shift del: upt_Suc)
qed




section \<open>The parsed document\<close>

lemma extends_numbers:
  assumes "extends P ps ps'"
  shows "map page_number ps' = map page_number ps"
  using assms by (intro nth_equalityI) (simp_all add: extends_def)

lemma upt_from_one: "map (\<lambda>k. 1 + int k) [0..<m] = map int [1..<Suc m]"
proof -
  have "[1..<Suc m] = map Suc [0..<m]"
    by (simp add: map_Suc_upt del: upt_Suc)
  then show ?thesis by (simp add: comp_def del: upt_Suc)
qed

lemma pages_loop_nth:
  "k < length pgs \<Longrightarrow>
     pages_data (pages_loop n pgs self) ! (length (pages_data self) + k)
     = fst (process_page (pages_loop n (take k pgs) self) (pgs ! k) (n + int k))"
proof (induction pgs arbitrary: n self k)
  case Nil
  then show ?case by simp
next
  case (Cons pg pgs)
  let ?pp = "process_page self pg n"
  let ?self1 = "(snd ?pp)\<lparr>pages_data := pages_data self @ [fst ?pp]\<rparr>"
  show ?case
  proof (cases k)
    case 0
    from pages_loop_new [of "n + 1" pgs ?self1] obtain new
      where "pages_data (pages_loop (n + 1) pgs ?self1) = (pages_data self @ [fst ?pp]) @ new"
      by auto
    then have "pages_data (pages_loop n (pg # pgs) self) ! length (pages_data self) = fst ?pp"
      unfolding pages_loop_step by (simp add: nth_append)
    with 0 show ?thesis by simp
  next
    case (Suc k')
    with Cons.prems have k': "k' < length pgs" by simp
    have "pages_data (pages_loop (n + 1) pgs ?self1) ! (length (pages_data ?self1) + k')
        = fst (process_page (pages_loop (n + 1) (take k' pgs) ?self1) (pgs ! k') (n + 1 + int k'))"
      using k' by (rule Cons.IH)
    moreover have "length (pages_data ?self1) + k' = length (pages_data self) + k"
      using Suc by simp
    moreover have "pages_loop n (take k (pg # pgs)) self = pages_loop (n + 1) (take k' pgs) ?self1"
      unfolding Suc take_Suc_Cons by (rule pages_loop_step)
    moreover have "n + 1 + int k' = n + int k" using Suc by simp
    moreover have "(pg # pgs) ! k = pgs ! k'" using Suc by simp
    ultimately show ?thesis
      unfolding pages_loop_step [of n pg pgs self] using Suc by simp
  qed
qed

text \<open>
  C8. For a session built on an existing path and a document of N pages, whenever parsing
  returns a document it has N page records numbered 1 to N in this order, and record k
  starts with the blocks obtained from source page k, processed with the cursor the earlier
  pages left; parsing does return a document when the fallback backend answers with tables
  on pages numbered from 1. Reconciliation keeps the pages and their order and only appends
  blocks to their contents.
\<close>

theorem parse_pdf_page_numbers:
  assumes "PDFParser_init fs path = Inr self"
    and "pdfplumber_open be path = Inr pdf_pages"
  shows "(\<forall>doc self'. parse_pdf be self = Inr (doc, self') \<longrightarrow>
            map page_number doc = map int [1..<Suc (length pdf_pages)]
            \<and> (\<forall>k < length pdf_pages.
                  \<exists>added. content (doc ! k)
                    = content (fst (process_page (pages_loop 1 (take k pdf_pages) self)
                                      (pdf_pages ! k) (1 + int k))) @ added))
    \<and> (\<forall>ts. camelot_read_pdf be path = Inr ts \<and> (\<forall>t \<in> set ts. 1 \<le> tbl_page t) \<longrightarrow>
            (\<exists>doc self'. parse_pdf be self = Inr (doc, self')))
    \<and> (\<forall>i ts (s :: PDFParser) s'. camelot_loop i ts s = Inr s' \<longrightarrow>
            map page_number (pages_data s') = map page_number (pages_data s)
            \<and> (\<forall>j < length (pages_data s).
                  \<exists>added. content (pages_data s' ! j) = content (pages_data s ! j) @ added))"
proof -
  from assms(1) have self: "pdf_path self = path" "pages_data self = []"
    by (auto simp: PDFParser_init_def split: if_splits)
  let ?s1 = "pages_loop 1 pdf_pages self"
  from pages_loop_new [of 1 pdf_pages self] self obtain new
    where new: "pages_data ?s1 = new"
      "map page_number new = map int [1..<Suc (length pdf_pages)]"
      "\<forall>p \<in> set new. \<forall>b \<in> set (content p). typed b"
      "pdf_path ?s1 = path"
    by (auto simp: upt_from_one)
  have len: "length (pages_data ?s1) = length pdf_pages"
    using new(1,2) by (metis length_map length_upt diff_Suc_1)
  have nth: "pages_data ?s1 ! k
      = fst (process_page (pages_loop 1 (take k pdf_pages) self) (pdf_pages ! k) (1 + int k))"
    if "k < length pdf_pages" for k
    using pages_loop_nth [OF that, of 1 self] self(2) by simp
  have unfold: "parse_pdf be self =
      (case camelot_read_pdf be path of
         Inl e \<Rightarrow> Inl e
       | Inr ts \<Rightarrow> (case camelot_loop 0 ts ?s1 of
                     Inl e \<Rightarrow> Inl e
                   | Inr self2 \<Rightarrow> Inr (pages_data self2, self2)))"
    by (simp add: parse_pdf_def extract_tables_with_camelot_def self(1) assms(2) new(4)
        split: sum.splits)
  have 1: "map page_number doc = map int [1..<Suc (length pdf_pages)]
      \<and> (\<forall>k < length pdf_pages.
            \<exists>added. content (doc ! k)
              = content (fst (process_page (pages_loop 1 (take k pdf_pages) self)
                                (pdf_pages ! k) (1 + int k))) @ added)"
    if "parse_pdf be self = Inr (doc, self')" for doc self'
  proof -
    from that obtain ts where ts: "camelot_loop 0 ts ?s1 = Inr self'" "doc = pages_data self'"
      unfolding unfold by (auto split: sum.splits)
    from camelot_loop_extends [OF ts(1)]
    have ext: "extends (\<lambda>b. \<exists>pn td. b = fallback_block ?s1 pn td) (pages_data ?s1) doc"
      using ts(2) by simp
    have a: "map page_number doc = map int [1..<Suc (length pdf_pages)]"
      using extends_numbers [OF ext] new(1,2) by simp
    have b: "\<exists>added. content (doc ! k)
              = content (fst (process_page (pages_loop 1 (take k pdf_pages) self)
                                (pdf_pages ! k) (1 + int k))) @ added"
      if k: "k < length pdf_pages" for k
    proof -
      from ext k len obtain added where "content (doc ! k) = content (pages_data ?s1 ! k) @ added"
        by (auto simp: extends_def)
      then show ?thesis using nth [OF k] by auto
    qed
    from a b show ?thesis by blast
  qed
  have 2: "\<exists>doc self'. parse_pdf be self = Inr (doc, self')"
    if "camelot_read_pdf be path = Inr ts" "\<forall>t \<in> set ts. 1 \<le> tbl_page t" for ts
  proof -
    have "all_typed (pages_data ?s1)"
      using new(1,3) by (simp add: all_typed_def)
    with that(2) obtain self' where "camelot_loop 0 ts ?s1 = Inr self'"
      using camelot_loop_total by blast
    then show ?thesis unfolding unfold by (simp add: that(1))
  qed
  have 3: "map page_number (pages_data s') = map page_number (pages_data s)
            \<and> (\<forall>j < length (pages_data s).
                  \<exists>added. content (pages_data s' ! j) = content (pages_data s ! j) @ added)"
    if "camelot_loop i ts s = Inr s'" for i ts and s s' :: PDFParser
    using camelot_loop_extends [OF that] extends_numbers
    by (fastforce simp: extends_def)
  from 1 2 3 show ?thesis by blast
qed

theorem parse_pdf_page_numbers_witness:
  "\<exists>doc s. parse_pdf two_table_backends fresh_session = Inr (doc, s)
     \<and> map page_number doc = [1, 2]
     \<and> table_rows (hd (content (doc ! 0))) = [[PStr ''a'']]
     \<and> table_rows (hd (content (doc ! 1))) = [[PStr ''b'']]"
proof -
  have i: "PDFParser_init {''two.pdf''} ''two.pdf'' = Inr fresh_session"
    by (simp add: PDFParser_init_def fresh_session_def)
  have p: "pdfplumber_open two_table_backends ''two.pdf'' = Inr two_table_pages"
    by (simp add: two_table_backends_def)
  have c: "camelot_read_pdf two_table_backends ''two.pdf'' = Inr two_table_fallback"
    by (simp add: two_table_backends_def)
  have t: "\<forall>t \<in> set two_table_fallback. 1 \<le> tbl_page t"
    by (simp add: two_table_fallback_def)
  have n: "map int [1..<Suc (length two_table_pages)] = [1, 2]"
    by (simp add: two_table_pages_def upt_rec)
  have k0: "table_rows (hd (content (fst (process_page
              (pages_loop 1 (take 0 two_table_pages) fresh_session)
              (two_table_pages ! 0) (1 + int 0))))) = [[PStr ''a'']]
          \<and> content (fst (process_page
              (pages_loop 1 (take 0 two_table_pages) fresh_session)
              (two_table_pages ! 0) (1 + int 0))) \<noteq> []"
    by code_simp
  have k1: "table_rows (hd (content (fst (process_page
              (pages_loop 1 (take 1 two_table_pages) fresh_session)
              (two_table_pages ! 1) (1 + int 1))))) = [[PStr ''b'']]
          \<and> content (fst (process_page
              (pages_loop 1 (take 1 two_table_pages) fresh_session)
              (two_table_pages ! 1) (1 + int 1))) \<noteq> []"
    by code_simp
  have l: "0 < length two_table_pages" "1 < length two_table_pages"
    by (simp_all add: two_table_pages_def)
  note th = parse_pdf_page_numbers [OF i p]
  from th c t obtain doc s where d: "parse_pdf two_table_backends fresh_session = Inr (doc, s)"
    by blast
  with th have nums: "map page_number doc = map int [1..<Suc (length two_table_pages)]"
    and src: "\<And>k. k < length two_table_pages \<Longrightarrow>
        \<exists>added. content (doc ! k)
          = content (fst (process_page (pages_loop 1 (take k two_table_pages) fresh_session)
                            (two_table_pages ! k) (1 + int k))) @ added"
    by blast+
  from src [OF l(1)] k0 have r0: "table_rows (hd (content (doc ! 0))) = [[PStr ''a'']]"
    by auto
  from src [OF l(2)] k1 have r1: "table_rows (hd (content (doc ! 1))) = [[PStr ''b'']]"
    by auto
  from nums n have "map page_number doc = [1, 2]" by simp
  with d r0 r1 show ?thesis by (intro exI [of _ doc] exI [of _ s] conjI)
qed

text \<open>
  C1. The reconciliation compares the number of tables on a page with the position of the
  fallback table in the whole document, not within its page. On the two-page document with
  one table per page, each backend finds one table on each page, and the parsed document
  has two tables on page 2.
\<close>

theorem fallback_duplicates_table_on_second_page:
  "map (\<lambda>p. count_tables (content p)) (pages_data (pages_loop 1 two_table_pages fresh_session))
     = [1, 1]
   \<and> map (fallback_count two_table_fallback) [1, 2] = [1, 1]
   \<and> (case parse_pdf two_table_backends fresh_session of
         Inl e \<Rightarrow> False
       | Inr (doc, s) \<Rightarrow> map (\<lambda>p. count_tables (content p)) doc = [1, 2])"
  by code_simp


end
